theory Spec2Isabelle
  imports Main "HOL-Library.AList" "HOL-Library.Sublist"
begin

section \<open>Strings\<close>

text \<open>
  A Go string is a sequence of bytes, here a \<open>char list\<close>.  The functions of package
  \<open>strings\<close> that \<^verbatim>\<open>main.go\<close> calls are written out below with Go's names.
\<close>

definition DQ :: char where
  "DQ = CHR 0x22"

definition SQ :: char where
  "SQ = CHR 0x27"

definition LF :: char where
  "LF = CHR 0x0A"

definition CR :: char where
  "CR = CHR 0x0D"

text \<open>\<^verbatim>\<open>strings.Index(s, sep)\<close>: the offset of the first occurrence, \<open>None\<close> for Go's -1.\<close>

fun Index :: "string \<Rightarrow> string \<Rightarrow> nat option" where
  "Index [] sep = (if sep = [] then Some 0 else None)"
| "Index (c # cs) sep =
     (if prefix sep (c # cs) then Some 0 else map_option Suc (Index cs sep))"

definition Contains :: "string \<Rightarrow> string \<Rightarrow> bool" where
  "Contains s substr = (Index s substr \<noteq> None)"

definition HasPrefix :: "string \<Rightarrow> string \<Rightarrow> bool" where
  "HasPrefix s p = prefix p s"

definition TrimSuffix :: "string \<Rightarrow> string \<Rightarrow> string" where
  "TrimSuffix s suf = (if suffix suf s then take (length s - length suf) s else s)"

text \<open>
  \<^verbatim>\<open>strings.Split(s, sep)\<close> for a separator that is not empty: cut at the first occurrence,
  go on behind it.  (With the empty separator Go cuts the string into its UTF-8
  sequences, here into its bytes; \<^verbatim>\<open>main.go\<close> only splits on a constant of nine bytes.)
\<close>

function Split :: "string \<Rightarrow> string \<Rightarrow> string list" where
  "Split s sep =
     (if sep = [] then map (\<lambda>c. [c]) s
      else case Index s sep of
             None \<Rightarrow> [s]
           | Some m \<Rightarrow> take m s # Split (drop (m + length sep) s) sep)"
  by pat_completeness auto

lemma Index_le: "Index s sep = Some m \<Longrightarrow> m + length sep \<le> length s"
proof (induction s arbitrary: m)
  case Nil
  then show ?case by (simp split: if_splits)
next
  case (Cons c cs)
  show ?case
  proof (cases "prefix sep (c # cs)")
    case True
    then have "length sep \<le> length (c # cs)" by (rule prefix_length_le)
    with True Cons.prems show ?thesis by simp
  next
    case False
    with Cons.prems obtain m' where "Index cs sep = Some m'" "m = Suc m'" by auto
    with Cons.IH show ?thesis by fastforce
  qed
qed

termination Split
proof (relation "measure (\<lambda>(s, sep). length s)")
  show "wf (measure (\<lambda>(s, sep). length s))" by simp
next
  fix s sep :: string and m
  assume "sep \<noteq> []" and "Index s sep = Some m"
  then have "m + length sep \<le> length s" and "0 < length sep"
    by (simp_all add: Index_le)
  then have "length s - (m + length sep) < length s"
    by arith
  then show "((drop (m + length sep) s, sep), (s, sep)) \<in> measure (\<lambda>(s, sep). length s)"
    by simp
qed

declare Split.simps [simp del]

section \<open>The usage table\<close>

text \<open>
  \<^verbatim>\<open>d.mp\<close> is a Go \<^verbatim>\<open>map[string]bool\<close>.  It is modelled as an association list with
  distinct keys; the order of the list stands for the (unspecified) order in which Go
  ranges over the map.  The mutex around the body of \<^verbatim>\<open>markModuleAsFound\<close> makes each
  call atomic, so a concurrent scan is some sequence of calls.
\<close>

type_synonym table = "(string \<times> bool) list"

definition markModuleAsFound :: "string \<Rightarrow> table \<Rightarrow> table" where
  "markModuleAsFound moduleName mp =
     (case map_of mp moduleName of
        Some _ \<Rightarrow> AList.update moduleName True mp
      | None \<Rightarrow> mp)"

text \<open>\<^verbatim>\<open>createDepsToRemoveList\<close>: range over the map, append the keys with a false flag.\<close>

definition createDepsToRemoveList :: "table \<Rightarrow> string list" where
  "createDepsToRemoveList mp =
     fold (\<lambda>(k, v) depsToRemove. if \<not> v then depsToRemove @ [k] else depsToRemove) mp []"

section \<open>Require-style extraction\<close>

definition requirePat :: string where
  "requirePat = ''require('' @ [DQ]"

definition requireEnd :: string where
  "requireEnd = [DQ] @ '');''"

text \<open>
  The loop of \<^verbatim>\<open>handleRequireCase\<close> over \<^verbatim>\<open>pkgs\<close>, with its index: the fragment at index 0
  is passed over, a fragment that starts with a dot is passed over, any other fragment
  loses the suffix \<^verbatim>\<open>");\<close> and is marked.
\<close>

fun requireLoop :: "nat \<Rightarrow> string list \<Rightarrow> table \<Rightarrow> table" where
  "requireLoop i [] mp = mp"
| "requireLoop i (v # vs) mp =
     (if i = 0 then requireLoop (Suc i) vs mp
      else if \<not> HasPrefix v ''.''
        then requireLoop (Suc i) vs (markModuleAsFound (TrimSuffix v requireEnd) mp)
        else requireLoop (Suc i) vs mp)"

definition handleRequireCase :: "string \<Rightarrow> table \<Rightarrow> table" where
  "handleRequireCase currLine mp = requireLoop 0 (Split currLine requirePat) mp"

section \<open>Regular expressions\<close>

text \<open>
  The two patterns of \<^verbatim>\<open>main.go\<close> use literals, character classes, \<open>*\<close> and \<open>+\<close> on a
  character class, capture groups, concatenation and alternation.  Go's \<^verbatim>\<open>regexp\<close>
  returns the leftmost match, and among the matches that start there the one a
  backtracking search finds first; \<open>rmatch\<close> is that backtracking search, written with
  a continuation for what follows the expression.  Both patterns begin with an ASCII
  letter or a comma and test quotes, white space and braces only, all of them single
  bytes that never occur inside a longer UTF-8 sequence, so matching bytes and matching
  runes agree.
\<close>

datatype cclass = OneOf "char list" | NoneOf "char list"

fun cmatch :: "cclass \<Rightarrow> char \<Rightarrow> bool" where
  "cmatch (OneOf cs) c = (c \<in> set cs)"
| "cmatch (NoneOf cs) c = (c \<notin> set cs)"

datatype regex =
    Lit string
  | Cls cclass
  | Star cclass
  | Plus cclass
  | Group nat regex
  | Cat regex regex
  | Alt regex regex

text \<open>A capture that took no part in the match reads as the empty string.\<close>

type_synonym caps = "nat \<Rightarrow> string"

fun rmatch :: "regex \<Rightarrow> string \<Rightarrow> caps \<Rightarrow> (string \<Rightarrow> caps \<Rightarrow> 'a option) \<Rightarrow> 'a option" where
  "rmatch (Lit l) s c k = (if prefix l s then k (drop (length l) s) c else None)"
| "rmatch (Cls cl) s c k =
     (case s of [] \<Rightarrow> None | x # xs \<Rightarrow> if cmatch cl x then k xs c else None)"
| "rmatch (Star cl) s c k =
     (case s of
        [] \<Rightarrow> k [] c
      | x # xs \<Rightarrow>
          if cmatch cl x
          then (case rmatch (Star cl) xs c k of Some r \<Rightarrow> Some r | None \<Rightarrow> k s c)
          else k s c)"
| "rmatch (Plus cl) s c k =
     (case s of [] \<Rightarrow> None | x # xs \<Rightarrow> if cmatch cl x then rmatch (Star cl) xs c k else None)"
| "rmatch (Group n r) s c k =
     rmatch r s c (\<lambda>s' c'. k s' (c'(n := take (length s - length s') s)))"
| "rmatch (Cat a b) s c k = rmatch a s c (\<lambda>s' c'. rmatch b s' c' k)"
| "rmatch (Alt a b) s c k =
     (case rmatch a s c k of Some r \<Rightarrow> Some r | None \<Rightarrow> rmatch b s c k)"

text \<open>A match at the start of \<open>s\<close>: what is left of \<open>s\<close> behind it, and the captures.\<close>

definition matchHere :: "regex \<Rightarrow> string \<Rightarrow> (string \<times> caps) option" where
  "matchHere re s = rmatch re s (\<lambda>_. []) (\<lambda>rest c. Some (rest, c))"

text \<open>
  \<^verbatim>\<open>FindAllStringSubmatch(s, -1)\<close> with two groups: the successive leftmost matches that do
  not overlap, each as the list of the whole match and the two captures.  The search
  goes on behind a match; a match of length 0 (neither pattern has one) moves on by one
  character.
\<close>

function FindAllStringSubmatch :: "regex \<Rightarrow> string \<Rightarrow> string list list" where
  "FindAllStringSubmatch re [] = []"
| "FindAllStringSubmatch re (x # xs) =
     (case matchHere re (x # xs) of
        None \<Rightarrow> FindAllStringSubmatch re xs
      | Some (rest, c) \<Rightarrow>
          [take (length (x # xs) - length rest) (x # xs), c 1, c 2]
            # FindAllStringSubmatch re (if length rest \<le> length xs then rest else xs))"
  by pat_completeness auto

termination FindAllStringSubmatch
  by (relation "measure (\<lambda>(re, s). length s)") auto

text \<open>\<^verbatim>\<open>ReplaceAllString(s, repl)\<close> for a replacement without \<open>$\<close>.\<close>

function ReplaceAllString :: "regex \<Rightarrow> string \<Rightarrow> string \<Rightarrow> string" where
  "ReplaceAllString re [] repl = []"
| "ReplaceAllString re (x # xs) repl =
     (case matchHere re (x # xs) of
        None \<Rightarrow> x # ReplaceAllString re xs repl
      | Some (rest, c) \<Rightarrow>
          if length rest \<le> length xs then repl @ ReplaceAllString re rest repl
          else repl @ x # ReplaceAllString re xs repl)"
  by pat_completeness auto

termination ReplaceAllString
  by (relation "measure (\<lambda>(re, s, repl). length s)") auto

definition whitespace :: cclass where
  "whitespace = OneOf [CHR 0x09, LF, CHR 0x0C, CR, CHR '' '']"

definition quotes :: "char list" where
  "quotes = [DQ, SQ]"

section \<open>Import-style extraction\<close>

text \<open>The pattern \<^verbatim>\<open>from\s*["']([^"']+)["']|import\s*["']([^"']+)["']\<close>.\<close>

definition importClause :: "string \<Rightarrow> nat \<Rightarrow> regex" where
  "importClause kw n =
     Cat (Lit kw) (Cat (Star whitespace)
       (Cat (Cls (OneOf quotes)) (Cat (Group n (Plus (NoneOf quotes))) (Cls (OneOf quotes)))))"

definition importRe :: regex where
  "importRe = Alt (importClause ''from'' 1) (importClause ''import'' 2)"

text \<open>The body of the loop over \<^verbatim>\<open>matches\<close>: \<^verbatim>\<open>match[1]\<close>, or \<^verbatim>\<open>match[2]\<close> when that is empty.\<close>

definition moduleNameOf :: "string list \<Rightarrow> string" where
  "moduleNameOf match = (let moduleName = match ! 1 in
     if moduleName = [] then match ! 2 else moduleName)"

definition handleImportCase :: "string \<Rightarrow> table \<Rightarrow> table" where
  "handleImportCase currLine mp =
     fold (\<lambda>match. markModuleAsFound (moduleNameOf match))
       (FindAllStringSubmatch importRe currLine) mp"

definition scanLineAndExtractPkgs :: "string \<Rightarrow> table \<Rightarrow> table" where
  "scanLineAndExtractPkgs currLine mp =
     (let mp1 = (if Contains currLine ''require'' then handleRequireCase currLine mp else mp)
      in if Contains currLine ''import'' then handleImportCase currLine mp1 else mp1)"

section \<open>Reading files line by line\<close>

text \<open>
  A \<^verbatim>\<open>bufio.Scanner\<close> with the split function \<^verbatim>\<open>ScanLines\<close> (the default one): the lines
  of the data, each without its line feed and without one carriage return before it; a
  last line with no line feed counts when it is not empty.  The scanner's buffer holds
  \<^verbatim>\<open>MaxScanTokenSize\<close> bytes: at a line that does not fit, \<^verbatim>\<open>Scan\<close> returns false and the
  loop ends (neither loop of \<^verbatim>\<open>main.go\<close> looks at \<^verbatim>\<open>Err\<close>).
\<close>

definition MaxScanTokenSize :: nat where
  "MaxScanTokenSize = 65536"

fun rawLines :: "string \<Rightarrow> string \<Rightarrow> string list" where
  "rawLines acc [] = (if acc = [] then [] else [rev acc])"
| "rawLines acc (c # cs) = (if c = LF then rev acc # rawLines [] cs else rawLines (c # acc) cs)"

definition dropCR :: "string \<Rightarrow> string" where
  "dropCR data = (if data \<noteq> [] \<and> last data = CR then butlast data else data)"

definition ScanLines :: "string \<Rightarrow> string list" where
  "ScanLines data =
     map dropCR (takeWhile (\<lambda>l. length l < MaxScanTokenSize) (rawLines [] data))"

section \<open>The program state and the file system\<close>

datatype error =
    SkipDir
  | SkipAll
  | PathError string string
  | LinkError string string string
  | SyntaxError

text \<open>
  \<^verbatim>\<open>Package\<close> is what \<^verbatim>\<open>json.Unmarshal\<close> fills in; a Go map is ranged over in the order of
  the list.
\<close>

record Package =
  Scripts :: "(string \<times> string) list"
  Dependencies :: "(string \<times> string) list"
  DevDependencies :: "(string \<times> string) list"

text \<open>
  A directory tree as \<^verbatim>\<open>filepath.Walk\<close> sees it: a file, or a directory with a flag
  (can its entries be listed?) and its entries in the order \<^verbatim>\<open>readDirNames\<close> returns
  them.  \<^verbatim>\<open>Lstat\<close> is taken to succeed on every entry.
\<close>

datatype node = File string | Dir string bool "node list"

fun nodeName :: "node \<Rightarrow> string" where
  "nodeName (File n) = n"
| "nodeName (Dir n r es) = n"

fun IsDir :: "node \<Rightarrow> bool" where
  "IsDir (File n) = False"
| "IsDir (Dir n r es) = True"

datatype message =
    ErrorScanning error
  | FinishedWalking
  | ProgramComplete
  | PackageJsonChanged
  | ReferToOldPackageJson

datatype op =
    OpOpen string
  | OpCreate string
  | OpReadFile string
  | OpWriteFile string
  | OpRename string string

text \<open>
  The state of a run: the global table \<^verbatim>\<open>d.mp\<close>; the goroutines started under the wait
  group \<^verbatim>\<open>wg\<close>, by the file each one reads; the files that extraction has read; the
  regular files by path with their content; the operations that the operating system
  refuses; the directory tree; and the lines that \<^verbatim>\<open>main\<close> itself prints (the progress
  lines of the other functions are left out).
\<close>

record world =
  d_mp :: table
  tasks :: "string list"
  scanned :: "string list"
  files :: "string \<Rightarrow> string option"
  refused :: "op list"
  tree :: node
  stdout :: "message list"

text \<open>\<^verbatim>\<open>log.Fatal\<close> ends the run: \<open>Inl\<close> with the error and the state at that moment.\<close>

type_synonym outcome = "(error \<times> world) + world"

definition osOpen :: "string \<Rightarrow> world \<Rightarrow> error + string" where
  "osOpen name w =
     (if OpOpen name \<in> set (refused w) then Inl (PathError ''open'' name)
      else case files w name of
             None \<Rightarrow> Inl (PathError ''open'' name)
           | Some data \<Rightarrow> Inr data)"

definition osCreate :: "string \<Rightarrow> world \<Rightarrow> error + world" where
  "osCreate name w =
     (if OpCreate name \<in> set (refused w) then Inl (PathError ''open'' name)
      else Inr (w\<lparr>files := (files w)(name \<mapsto> [])\<rparr>))"

definition osReadFile :: "string \<Rightarrow> world \<Rightarrow> error + string" where
  "osReadFile name w =
     (if OpReadFile name \<in> set (refused w) then Inl (PathError ''open'' name)
      else case files w name of
             None \<Rightarrow> Inl (PathError ''open'' name)
           | Some data \<Rightarrow> Inr data)"

definition osWriteFile :: "string \<Rightarrow> string \<Rightarrow> world \<Rightarrow> error + world" where
  "osWriteFile name data w =
     (if OpWriteFile name \<in> set (refused w) then Inl (PathError ''open'' name)
      else Inr (w\<lparr>files := (files w)(name \<mapsto> data)\<rparr>))"

definition osRename :: "string \<Rightarrow> string \<Rightarrow> world \<Rightarrow> error option \<times> world" where
  "osRename oldpath newpath w =
     (if OpRename oldpath newpath \<in> set (refused w)
      then (Some (LinkError ''rename'' oldpath newpath), w)
      else case files w oldpath of
             None \<Rightarrow> (Some (LinkError ''rename'' oldpath newpath), w)
           | Some data \<Rightarrow>
               (None, w\<lparr>files := (files w)(oldpath := None, newpath \<mapsto> data)\<rparr>))"

section \<open>The manifest reader\<close>

text \<open>
  The three loops of \<^verbatim>\<open>readPackages\<close> over the decoded manifest; \<open>scriptLoop\<close> is the
  inner loop of the third, over the keys of the table.
\<close>

definition scriptLoop :: "string \<Rightarrow> table \<Rightarrow> table" where
  "scriptLoop script m =
     fold (\<lambda>dependency m'.
             if Contains script dependency then AList.update dependency True m' else m')
       (map fst m) m"

definition populate :: "Package \<Rightarrow> table \<Rightarrow> table" where
  "populate pkg m0 =
     (let m1 = fold (\<lambda>(dependency, _). AList.update dependency False) (Dependencies pkg) m0;
          m2 = fold (\<lambda>(dependency, _). AList.update dependency False) (DevDependencies pkg) m1
      in fold (\<lambda>(_, script). scriptLoop script) (Scripts pkg) m2)"

text \<open>
  \<^verbatim>\<open>json.Unmarshal\<close> is a parameter: from the bytes, the error it returns (if any) and
  the \<^verbatim>\<open>Package\<close> it leaves behind.  \<^verbatim>\<open>readPackages\<close> drops that error, as it drops the
  one of \<^verbatim>\<open>io.ReadAll\<close>.
\<close>

type_synonym unmarshal = "string \<Rightarrow> error option \<times> Package"

definition readPackages :: "unmarshal \<Rightarrow> world \<Rightarrow> outcome" where
  "readPackages Unmarshal w =
     (case osOpen ''package.json'' w of
        Inl err \<Rightarrow> Inl (err, w)
      | Inr byteValue \<Rightarrow>
          (let (_, pkg) = Unmarshal byteValue
           in Inr (w\<lparr>d_mp := populate pkg (d_mp w)\<rparr>)))"

section \<open>The tree scanner\<close>

definition filesToExclude :: "string list" where
  "filesToExclude =
     [''node_modules'', ''.gitignore'', ''.git'', ''.env'', ''package.json'',
      ''package-lock.json'', ''README.md'', ''main.go'', ''depose'']"

text \<open>
  \<^verbatim>\<open>scanDir\<close> looks its argument \<^verbatim>\<open>path\<close> up in \<^verbatim>\<open>filesToExclude\<close>, reads \<^verbatim>\<open>info.IsDir()\<close>
  and never reads its third argument.  \<^verbatim>\<open>wg.Add(1)\<close> with the \<^verbatim>\<open>go\<close> statement is one
  more entry of \<open>tasks\<close>.
\<close>

definition scanDir :: "string \<Rightarrow> node \<Rightarrow> error option \<Rightarrow> world \<Rightarrow> error option \<times> world" where
  "scanDir path info e w =
     (if path \<in> set filesToExclude
      then (if IsDir info then (Some SkipDir, w) else (None, w))
      else if \<not> IsDir info then (None, w\<lparr>tasks := tasks w @ [path]\<rparr>)
      else (None, w))"

text \<open>
  \<^verbatim>\<open>filepath.Join\<close> of a directory of the walk and an entry name; the root \<^verbatim>\<open>.\<close> is cleaned
  away, so an entry of the root has its bare name for path.
\<close>

definition Join :: "string \<Rightarrow> string \<Rightarrow> string" where
  "Join dir name = (if dir = ''.'' then name else dir @ ''/'' @ name)"

text \<open>
  \<^verbatim>\<open>filepath.Walk\<close> and its helper \<^verbatim>\<open>walk\<close>, from package \<^verbatim>\<open>path/filepath\<close>.  A directory
  is announced to the callback once, with the error of listing it if there is one; when
  either that error or the callback's result is not nil, the directory is left with the
  callback's result.  In the loop over the entries, a result other than \<^verbatim>\<open>SkipDir\<close> from
  a directory, or any result that is not nil from a file, ends the walk.
\<close>

type_synonym walkFunc = "string \<Rightarrow> node \<Rightarrow> error option \<Rightarrow> world \<Rightarrow> error option \<times> world"

fun walk :: "string \<Rightarrow> node \<Rightarrow> walkFunc \<Rightarrow> world \<Rightarrow> error option \<times> world"
  and walkNames :: "string \<Rightarrow> node list \<Rightarrow> walkFunc \<Rightarrow> world \<Rightarrow> error option \<times> world" where
  "walk path (File n) walkFn w = walkFn path (File n) None w"
| "walk path (Dir n readable entries) walkFn w =
     (let err = (if readable then None else Some (PathError ''open'' path));
          (err1, w1) = walkFn path (Dir n readable entries) err w
      in if err \<noteq> None \<or> err1 \<noteq> None then (err1, w1)
         else walkNames path entries walkFn w1)"
| "walkNames path [] walkFn w = (None, w)"
| "walkNames path (entry # entries) walkFn w =
     (let filename = Join path (nodeName entry);
          (err, w1) = walk filename entry walkFn w
      in if err \<noteq> None \<and> (\<not> IsDir entry \<or> err \<noteq> Some SkipDir) then (err, w1)
         else walkNames path entries walkFn w1)"

definition Walk :: "string \<Rightarrow> walkFunc \<Rightarrow> world \<Rightarrow> error option \<times> world" where
  "Walk root fn w =
     (let (err, w1) = walk root (tree w) fn w
      in if err = Some SkipDir \<or> err = Some SkipAll then (None, w1) else (err, w1))"

text \<open>
  One extraction task.  The goroutines run between the \<^verbatim>\<open>go\<close> statement and
  \<^verbatim>\<open>wg.Wait()\<close>; the table ends the same for every interleaving of their calls of
  \<^verbatim>\<open>markModuleAsFound\<close>, and the model runs them one after the other, in the order they
  were started, at the barrier.  A file that cannot be opened ends the run.
\<close>

definition readFileAndExtractPackages :: "string \<Rightarrow> world \<Rightarrow> outcome" where
  "readFileAndExtractPackages file w =
     (case osOpen file w of
        Inl err \<Rightarrow> Inl (err, w)
      | Inr data \<Rightarrow>
          Inr (w\<lparr>d_mp := fold scanLineAndExtractPkgs (ScanLines data) (d_mp w),
                 scanned := scanned w @ [file]\<rparr>))"

fun runTasks :: "string list \<Rightarrow> world \<Rightarrow> outcome" where
  "runTasks [] w = Inr w"
| "runTasks (file # rest) w =
     (case readFileAndExtractPackages file w of
        Inl fatal \<Rightarrow> Inl fatal
      | Inr w1 \<Rightarrow> runTasks rest w1)"

definition wgWait :: "world \<Rightarrow> outcome" where
  "wgWait w = runTasks (tasks w) w"

section \<open>The pruner\<close>

text \<open>The inner loop of \<^verbatim>\<open>createNewPackageJsonFile\<close>, with its \<^verbatim>\<open>break\<close>.\<close>

fun shouldWrite :: "string list \<Rightarrow> string \<Rightarrow> bool" where
  "shouldWrite [] line = True"
| "shouldWrite (dep # deps) line = (if Contains line dep then False else shouldWrite deps line)"

text \<open>The outer loop; \<open>out\<close> is what has gone to the writer so far.\<close>

fun copyLines :: "string list \<Rightarrow> string list \<Rightarrow> string \<Rightarrow> string" where
  "copyLines depsToRemove [] out = out"
| "copyLines depsToRemove (line # rest) out =
     copyLines depsToRemove rest
       (if shouldWrite depsToRemove line then out @ line @ [LF] else out)"

text \<open>
  The second argument is the content behind the file handle \<^verbatim>\<open>jsonFile\<close>.  Writes through
  the buffered writer are taken to succeed (the program drops their errors).
\<close>

definition createNewPackageJsonFile :: "string list \<Rightarrow> string \<Rightarrow> world \<Rightarrow> outcome" where
  "createNewPackageJsonFile depsToRemove jsonFile w =
     (case osCreate ''newPackage.json'' w of
        Inl err \<Rightarrow> Inl (err, w)
      | Inr w1 \<Rightarrow>
          Inr (w1\<lparr>files := (files w1)(''newPackage.json'' \<mapsto>
                                        copyLines depsToRemove (ScanLines jsonFile) [])\<rparr>))"

text \<open>The pattern \<^verbatim>\<open>,\s*}\<close>.\<close>

definition trailingCommaRe :: regex where
  "trailingCommaRe = Cat (Lit '','') (Cat (Star whitespace) (Lit ''}''))"

definition removeTrailingCommas :: "world \<Rightarrow> outcome" where
  "removeTrailingCommas w =
     (case osReadFile ''newPackage.json'' w of
        Inl err \<Rightarrow> Inl (err, w)
      | Inr data \<Rightarrow>
          (case osWriteFile ''newPackage.json'' (ReplaceAllString trailingCommaRe data ''}'') w of
             Inl err \<Rightarrow> Inl (err, w)
           | Inr w1 \<Rightarrow> Inr w1))"

text \<open>The results of the two calls of \<^verbatim>\<open>os.Rename\<close> are dropped.\<close>

definition deleteDepsFromPackageJSON :: "string list \<Rightarrow> world \<Rightarrow> outcome" where
  "deleteDepsFromPackageJSON depsToRemove w =
     (case osOpen ''package.json'' w of
        Inl err \<Rightarrow> Inl (err, w)
      | Inr jsonFile \<Rightarrow>
          (case createNewPackageJsonFile depsToRemove jsonFile w of
             Inl fatal \<Rightarrow> Inl fatal
           | Inr w1 \<Rightarrow>
               (case removeTrailingCommas w1 of
                  Inl fatal \<Rightarrow> Inl fatal
                | Inr w2 \<Rightarrow>
                    (let (_, w3) = osRename ''package.json'' ''oldpackage.json'' w2;
                         (_, w4) = osRename ''newPackage.json'' ''package.json'' w3
                     in Inr w4))))"

section \<open>The whole run\<close>

definition print :: "message \<Rightarrow> world \<Rightarrow> world" where
  "print m w = w\<lparr>stdout := stdout w @ [m]\<rparr>"

text \<open>
  \<^verbatim>\<open>main\<close> in two parts: \<open>afterWalk\<close> is its body from the test of the result of
  \<^verbatim>\<open>filepath.Walk\<close> on.
\<close>

definition afterWalk :: "error option \<Rightarrow> world \<Rightarrow> outcome" where
  "afterWalk err w2 =
     (let w3 = (case err of Some e \<Rightarrow> print (ErrorScanning e) w2 | None \<Rightarrow> w2)
      in case wgWait w3 of
           Inl fatal \<Rightarrow> Inl fatal
         | Inr w4 \<Rightarrow>
             (let w5 = print FinishedWalking w4;
                  depsToRemove = createDepsToRemoveList (d_mp w5)
              in case deleteDepsFromPackageJSON depsToRemove w5 of
                   Inl fatal \<Rightarrow> Inl fatal
                 | Inr w6 \<Rightarrow>
                     Inr (print ReferToOldPackageJson
                           (print PackageJsonChanged (print ProgramComplete w6)))))"

definition main :: "unmarshal \<Rightarrow> world \<Rightarrow> outcome" where
  "main Unmarshal w0 =
     (case readPackages Unmarshal (w0\<lparr>d_mp := []\<rparr>) of
        Inl fatal \<Rightarrow> Inl fatal
      | Inr w1 \<Rightarrow> (let (err, w2) = Walk ''.'' scanDir w1 in afterWalk err w2))"

section \<open>The names that extraction marks\<close>

text \<open>
  The fragments that the loop of \<^verbatim>\<open>handleRequireCase\<close> marks when it starts at index \<open>i\<close>,
  and all the names that one line hands to \<^verbatim>\<open>markModuleAsFound\<close>, in order.
\<close>

definition requireNames :: "nat \<Rightarrow> string list \<Rightarrow> string list" where
  "requireNames i vs =
     map (\<lambda>v. TrimSuffix v requireEnd)
       (filter (\<lambda>v. \<not> HasPrefix v ''.'') (if i = 0 then tl vs else vs))"

definition extractedNames :: "string \<Rightarrow> string list" where
  "extractedNames currLine =
     (if Contains currLine ''require'' then requireNames 0 (Split currLine requirePat) else [])
     @ (if Contains currLine ''import''
        then map moduleNameOf (FindAllStringSubmatch importRe currLine) else [])"

section \<open>What the two patterns say\<close>

text \<open>
  The patterns read as text, for comparison with the matcher above.  White space is what
  \<^verbatim>\<open>\s\<close> matches, a quote is one of the two quote characters.  An import clause is a
  keyword, white space, a quote, a name of at least one character that holds no quote,
  and a quote; \<open>clauseAt\<close> reads such a clause off the front of a string and returns the
  name and what follows.
\<close>

definition isSpace :: "char \<Rightarrow> bool" where
  "isSpace c = cmatch whitespace c"

definition isQuote :: "char \<Rightarrow> bool" where
  "isQuote c = (c \<in> set quotes)"

definition clauseAt :: "string \<Rightarrow> string \<Rightarrow> (string \<times> string) option" where
  "clauseAt kw s =
     (if prefix kw s then
        (case dropWhile isSpace (drop (length kw) s) of
           [] \<Rightarrow> None
         | q # s3 \<Rightarrow>
             if isQuote q then
               (case dropWhile (\<lambda>c. \<not> isQuote c) s3 of
                  [] \<Rightarrow> None
                | q2 # rest \<Rightarrow>
                    if takeWhile (\<lambda>c. \<not> isQuote c) s3 \<noteq> []
                    then Some (takeWhile (\<lambda>c. \<not> isQuote c) s3, rest) else None)
             else None)
      else None)"

definition isClause :: "string \<Rightarrow> string \<Rightarrow> string \<Rightarrow> bool" where
  "isClause kw name m \<longleftrightarrow>
     (\<exists>ws q1 q2. m = kw @ ws @ [q1] @ name @ [q2]
        \<and> (\<forall>c \<in> set ws. isSpace c) \<and> isQuote q1 \<and> isQuote q2
        \<and> name \<noteq> [] \<and> (\<forall>c \<in> set name. \<not> isQuote c))"

definition startsClause :: "string \<Rightarrow> bool" where
  "startsClause s \<longleftrightarrow>
     (\<exists>kw \<in> {''from'', ''import''}. \<exists>name m rest. s = m @ rest \<and> isClause kw name m)"

text \<open>
  All the matches of a line, from left to right and without overlap, each with its two
  captures: the first clause that starts anywhere in the line, then all the matches of
  what follows it.
\<close>

inductive allMatches :: "string \<Rightarrow> string list list \<Rightarrow> bool" where
  no_match: "(\<And>t. suffix t s \<Longrightarrow> \<not> startsClause t) \<Longrightarrow> allMatches s []"
| match_from: "isClause ''from'' name m \<Longrightarrow>
         (\<And>t. suffix t (pre @ m @ rest) \<Longrightarrow> length (m @ rest) < length t \<Longrightarrow> \<not> startsClause t) \<Longrightarrow>
         allMatches rest ms \<Longrightarrow>
         allMatches (pre @ m @ rest) ([m, name, []] # ms)"
| match_import: "isClause ''import'' name m \<Longrightarrow>
         (\<And>t. suffix t (pre @ m @ rest) \<Longrightarrow> length (m @ rest) < length t \<Longrightarrow> \<not> startsClause t) \<Longrightarrow>
         allMatches rest ms \<Longrightarrow>
         allMatches (pre @ m @ rest) ([m, [], name] # ms)"



section \<open>Example inputs\<close>

text \<open>
  A decoded manifest: two dependencies and a dev dependency; \<^verbatim>\<open>chalk\<close> is named in a script.
\<close>

definition examplePkg :: Package where
  "examplePkg = \<lparr>Scripts = [(''build'', ''chalk-cli build'')],
                  Dependencies = [(''lodash'', ''^4''), (''chalk'', ''^5'')],
                  DevDependencies = [(''jest'', ''^29'')]\<rparr>"

text \<open>A text in double quotes.\<close>

definition quoted :: "string \<Rightarrow> string" where
  "quoted s = [DQ] @ s @ [DQ]"

text \<open>A line with two import clauses, and the last line of an import over several lines.\<close>

definition twoImports :: string where
  "twoImports = ''import Foo from '' @ [SQ] @ ''bar'' @ [SQ] @ ''; import '' @ [DQ] @ ''baz'' @ [DQ]"

definition lastImportLine :: string where
  "lastImportLine = ''} from '' @ quoted ''lodash'' @ '';''"






text \<open>
  Project states: a tree, the files by path, and the operations that are refused.  In
  \<open>nestedTree\<close> a directory \<^verbatim>\<open>node_modules\<close> lies at the root and another one under
  \<^verbatim>\<open>src\<close>.
\<close>

definition projectWorld :: "node \<Rightarrow> (string \<times> string) list \<Rightarrow> op list \<Rightarrow> world" where
  "projectWorld t fs ops =
     \<lparr>d_mp = [], tasks = [], scanned = [], files = map_of fs, refused = ops, tree = t,
      stdout = []\<rparr>"

definition nestedTree :: node where
  "nestedTree =
     Dir ''.'' True
       [Dir ''node_modules'' True [Dir ''lodash'' True [File ''index.js'']],
        File ''package.json'',
        Dir ''src'' True
          [File ''app.js'',
           Dir ''node_modules'' True [Dir ''lib'' True [File ''x.js'']]]]"

definition requireLodash :: string where
  "requireLodash = ''const _ = require('' @ quoted ''lodash'' @ '');'' @ [LF]"

text \<open>The manifest of the first scenario, and what \<^verbatim>\<open>json.Unmarshal\<close> makes of it.\<close>

definition twoDepsManifest :: string where
  "twoDepsManifest =
     ''{'' @ [LF]
     @ ''  '' @ quoted ''dependencies'' @ '': {'' @ [LF]
     @ ''    '' @ quoted ''lodash'' @ '': '' @ quoted ''^4'' @ '','' @ [LF]
     @ ''    '' @ quoted ''chalk'' @ '': '' @ quoted ''^5'' @ [LF]
     @ ''  }'' @ [LF]
     @ ''}'' @ [LF]"


text \<open>A manifest that is no JSON, with the decoder's answer to it.\<close>

definition brokenManifest :: string where
  "brokenManifest = ''{ dependencies''"

definition syntaxErrorUnmarshal :: unmarshal where
  "syntaxErrorUnmarshal =
     (\<lambda>_. (Some SyntaxError, \<lparr>Scripts = [], Dependencies = [], DevDependencies = []\<rparr>))"

definition brokenWorld :: world where
  "brokenWorld =
     projectWorld (Dir ''.'' True [File ''index.js'', File ''package.json''])
       [(''package.json'', brokenManifest), (''index.js'', requireLodash)] []"

text \<open>A project where the backup name cannot be written, and one whose \<^verbatim>\<open>src\<close> cannot be listed.\<close>

definition renameRefusedWorld :: world where
  "renameRefusedWorld =
     projectWorld (Dir ''.'' True [File ''package.json''])
       [(''package.json'', twoDepsManifest)] [OpRename ''package.json'' ''oldpackage.json'']"


section \<open>Properties of the strings and the table\<close>


lemma Contains_iff_sublist: "Contains s sub \<longleftrightarrow> sublist sub s"
  unfolding Contains_def
  by (induction s) (auto simp: sublist_Cons_right)

lemma mark_keys: "map fst (markModuleAsFound n t) = map fst t"
proof (cases "map_of t n")
  case None
  then show ?thesis by (simp add: markModuleAsFound_def)
next
  case (Some b)
  then have "n \<in> fst ` set t" by (metis fst_conv image_eqI map_of_SomeD)
  with Some show ?thesis by (simp add: markModuleAsFound_def update_keys)
qed

lemma mark_lookup:
  "map_of (markModuleAsFound n t) k =
     (if k = n then map_option (\<lambda>_. True) (map_of t k) else map_of t k)"
  by (auto simp: markModuleAsFound_def update_conv' split: option.splits)

lemma fold_mark_keys: "map fst (fold markModuleAsFound names t) = map fst t"
  by (induction names arbitrary: t) (simp_all add: mark_keys)

lemma fold_mark_lookup:
  "map_of (fold markModuleAsFound names t) k =
     (if k \<in> set names then map_option (\<lambda>_. True) (map_of t k) else map_of t k)"
  by (induction names arbitrary: t) (auto simp: mark_lookup option.map_comp comp_def)

lemma removeList_filter:
  "fold (\<lambda>(k, v) acc. if \<not> v then acc @ [k] else acc) t acc0 =
     acc0 @ map fst (filter (\<lambda>(k, v). \<not> v) t)"
  by (induction t arbitrary: acc0) auto

lemma createDepsToRemoveList_set:
  "distinct (map fst t) \<Longrightarrow> set (createDepsToRemoveList t) = {k. map_of t k = Some False}"
proof -
  assume d: "distinct (map fst t)"
  have "set (createDepsToRemoveList t) = {k. (k, False) \<in> set t}"
    unfolding createDepsToRemoveList_def
    using removeList_filter [of t "[]"] by force
  also have "\<dots> = {k. map_of t k = Some False}"
    using d by (auto dest: map_of_SomeD)
  finally show ?thesis .
qed


lemma fold_update_False_lookup:
  "map_of (fold (\<lambda>(dependency, _). AList.update dependency False) xs m) k =
     (if k \<in> fst ` set xs then Some False else map_of m k)"
  by (induction xs arbitrary: m) (auto simp: update_conv' split: prod.splits)

lemma fold_update_False_distinct:
  "distinct (map fst m) \<Longrightarrow>
     distinct (map fst (fold (\<lambda>(dependency, _). AList.update dependency False) xs m))"
  by (induction xs arbitrary: m) (auto simp: distinct_update split: prod.splits)

lemma script_inner_keys:
  "set ks \<subseteq> fst ` set m \<Longrightarrow>
     map fst (fold (\<lambda>dependency m'. if Contains script dependency
                      then AList.update dependency True m' else m') ks m) = map fst m"
proof (induction ks arbitrary: m)
  case Nil
  then show ?case by simp
next
  case (Cons a ks)
  let ?m = "if Contains script a then AList.update a True m else m"
  from Cons.prems have a: "a \<in> fst ` set m" by simp
  then have keys: "map fst ?m = map fst m" by (simp add: update_keys)
  then have "fst ` set ?m = fst ` set m" by (metis list.set_map)
  with Cons.prems have "set ks \<subseteq> fst ` set ?m" by simp
  from Cons.IH [OF this] keys show ?case by simp
qed

lemma script_inner_lookup:
  "map_of (fold (\<lambda>dependency m'. if Contains script dependency
                   then AList.update dependency True m' else m') ks m) k =
     (if k \<in> set ks \<and> Contains script k then Some True else map_of m k)"
  by (induction ks arbitrary: m) (auto simp: update_conv')

lemma map_of_Some_key: "map_of m k = Some b \<Longrightarrow> k \<in> fst ` set m"
  by (metis fst_conv image_eqI map_of_SomeD)

lemma scriptLoop_keys: "map fst (scriptLoop script m) = map fst m"
  unfolding scriptLoop_def by (simp add: script_inner_keys)

lemma scriptLoop_lookup:
  "map_of (scriptLoop script m) k =
     (case map_of m k of None \<Rightarrow> None | Some b \<Rightarrow> Some (b \<or> Contains script k))"
proof (cases "map_of m k")
  case None
  then have "k \<notin> fst ` set m" by (simp add: map_of_eq_None_iff)
  with None show ?thesis by (simp add: scriptLoop_def script_inner_lookup)
next
  case (Some b)
  then have "k \<in> fst ` set m" by (rule map_of_Some_key)
  with Some show ?thesis by (cases b) (simp_all add: scriptLoop_def script_inner_lookup)
qed

lemma scripts_keys: "map fst (fold (\<lambda>(_, script). scriptLoop script) ss m) = map fst m"
  by (induction ss arbitrary: m) (simp_all add: scriptLoop_keys split: prod.splits)

lemma scripts_lookup:
  "map_of (fold (\<lambda>(_, script). scriptLoop script) ss m) k =
     (case map_of m k of None \<Rightarrow> None
      | Some b \<Rightarrow> Some (b \<or> (\<exists>script \<in> snd ` set ss. Contains script k)))"
  by (induction ss arbitrary: m) (auto simp: scriptLoop_lookup split: option.splits prod.splits)

lemma populate_distinct: "distinct (map fst (populate pkg []))"
  unfolding populate_def Let_def
  by (simp add: scripts_keys fold_update_False_distinct)

lemma populate_lookup:
  "map_of (populate pkg []) k =
     (if k \<in> fst ` set (Dependencies pkg) \<union> fst ` set (DevDependencies pkg)
      then Some (\<exists>script \<in> snd ` set (Scripts pkg). Contains script k) else None)"
  unfolding populate_def Let_def
  by (simp add: scripts_lookup fold_update_False_lookup)



lemma Split_sublist: "sep \<noteq> [] \<Longrightarrow> v \<in> set (Split s sep) \<Longrightarrow> sublist v s"
proof (induction s sep arbitrary: v rule: Split.induct)
  case (1 s sep)
  show ?case
  proof (cases "Index s sep")
    case None
    with 1 show ?thesis by (simp add: Split.simps)
  next
    case (Some m)
    with 1 have "v = take m s \<or> v \<in> set (Split (drop (m + length sep) s) sep)"
      by (simp add: Split.simps)
    then show ?thesis
    proof
      assume "v = take m s"
      then show ?thesis by (simp add: prefix_imp_sublist take_is_prefix)
    next
      assume "v \<in> set (Split (drop (m + length sep) s) sep)"
      with 1 Some have "sublist v (drop (m + length sep) s)" by simp
      then show ?thesis using sublist_drop sublist_order.order_trans by blast
    qed
  qed
qed

lemma TrimSuffix_sublist: "sublist (TrimSuffix v suf) v"
  by (simp add: TrimSuffix_def prefix_imp_sublist take_is_prefix)

lemma requireLoop_fold:
  "requireLoop i vs t = fold markModuleAsFound (requireNames i vs) t"
proof (induction vs arbitrary: i t)
  case Nil
  show ?case by (simp add: requireNames_def)
next
  case (Cons v vs)
  have "requireLoop (Suc j) vs t' = fold markModuleAsFound
          (map (\<lambda>v. TrimSuffix v requireEnd) (filter (\<lambda>v. \<not> HasPrefix v ''.'') vs)) t'" for j t'
    using Cons.IH [of "Suc j" t'] by (simp add: requireNames_def)
  then show ?case by (simp add: requireNames_def)
qed

lemma rmatch_sound:
  "rmatch re s c k = Some r \<Longrightarrow>
     \<exists>s' c'. suffix s' s \<and> k s' c' = Some r \<and> (\<forall>n. c' n = c n \<or> sublist (c' n) s)"
proof (induction re arbitrary: s c k)
  case (Lit l)
  then show ?case 
    by (auto split: if_splits intro!: exI [of _ "drop (length l) s"] exI [of _ c] simp: suffix_drop)
next
  case (Cls cl)
  then show ?case
    by (cases s) (auto split: if_splits intro!: exI [of _ "tl s"] exI [of _ c] simp: suffix_Cons)
next
  case (Star cl)
  then show ?case
  proof (induction s)
    case Nil
    then show ?case by (auto intro!: exI [of _ "[]"] exI [of _ c])
  next
    case (Cons x xs)
    show ?case
    proof (cases "cmatch cl x \<and> rmatch (Star cl) xs c k \<noteq> None")
      case True
      with Cons.prems have "rmatch (Star cl) xs c k = Some r" by auto
      from Cons.IH [OF this] obtain s' c' where
        "suffix s' xs" "k s' c' = Some r" "\<forall>n. c' n = c n \<or> sublist (c' n) xs" by blast
      then show ?thesis
        by (intro exI [of _ s'] exI [of _ c']) (auto simp: suffix_Cons sublist_Cons_right)
    next
      case False
      with Cons.prems have "k (x # xs) c = Some r" by (auto split: if_splits option.splits)
      then show ?thesis by (intro exI [of _ "x # xs"] exI [of _ c]) auto
    qed
  qed
next
  case (Plus cl)
  show ?case
  proof (cases s)
    case Nil
    with Plus show ?thesis by simp
  next
    case (Cons x xs)
    with Plus have st: "rmatch (Star cl) xs c k = Some r" by (auto split: if_splits)
    have "\<exists>s' c'. suffix s' xs \<and> k s' c' = Some r \<and> (\<forall>n. c' n = c n \<or> sublist (c' n) xs)"
      using st
    proof (induction xs)
      case Nil
      then show ?case by (auto intro!: exI [of _ "[]"] exI [of _ c])
    next
      case (Cons y ys)
      show ?case
      proof (cases "cmatch cl y \<and> rmatch (Star cl) ys c k \<noteq> None")
        case True
        with Cons.prems have "rmatch (Star cl) ys c k = Some r" by auto
        from Cons.IH [OF this] obtain s' c' where
          "suffix s' ys" "k s' c' = Some r" "\<forall>n. c' n = c n \<or> sublist (c' n) ys" by blast
        then show ?thesis
          by (intro exI [of _ s'] exI [of _ c']) (auto simp: suffix_Cons sublist_Cons_right)
      next
        case False
        with Cons.prems have "k (y # ys) c = Some r" by (auto split: if_splits option.splits)
        then show ?thesis by (intro exI [of _ "y # ys"] exI [of _ c]) auto
      qed
    qed
    then obtain s' c' where
      "suffix s' xs" "k s' c' = Some r" "\<forall>n. c' n = c n \<or> sublist (c' n) xs" by blast
    with Cons show ?thesis
      by (intro exI [of _ s'] exI [of _ c']) (auto simp: suffix_Cons sublist_Cons_right)
  qed
next
  case (Group n re)
  from Group.prems have "rmatch re s c (\<lambda>s' c'. k s' (c'(n := take (length s - length s') s))) = Some r"
    by simp
  from Group.IH [OF this] obtain s' c' where
    h: "suffix s' s" "k s' (c'(n := take (length s - length s') s)) = Some r"
       "\<forall>m. c' m = c m \<or> sublist (c' m) s" by blast
  define c2 where "c2 = c'(n := take (length s - length s') s)"
  have "k s' c2 = Some r"
    using h(2) by (simp add: c2_def)
  moreover have "\<forall>m. c2 m = c m \<or> sublist (c2 m) s"
    using h(3) by (simp add: c2_def prefix_imp_sublist take_is_prefix)
  ultimately show ?case
    using h(1) by blast
next
  case (Cat a b)
  from Cat.prems have "rmatch a s c (\<lambda>s' c'. rmatch b s' c' k) = Some r" by simp
  from Cat.IH(1) [OF this] obtain s1 c1 where
    h1: "suffix s1 s" "rmatch b s1 c1 k = Some r" "\<forall>n. c1 n = c n \<or> sublist (c1 n) s" by blast
  from Cat.IH(2) [OF h1(2)] obtain s2 c2 where
    h2: "suffix s2 s1" "k s2 c2 = Some r" "\<forall>n. c2 n = c1 n \<or> sublist (c2 n) s1" by blast
  have "\<forall>n. c2 n = c n \<or> sublist (c2 n) s"
  proof
    fix n
    from h2(3) have "c2 n = c1 n \<or> sublist (c2 n) s1" by blast
    then show "c2 n = c n \<or> sublist (c2 n) s"
    proof
      assume "c2 n = c1 n"
      with h1(3) show ?thesis by metis
    next
      assume "sublist (c2 n) s1"
      with h1(1) have "sublist (c2 n) s"
        using suffix_imp_sublist sublist_order.order_trans by blast
      then show ?thesis ..
    qed
  qed
  with h1(1) h2(1,2) show ?case
    by (intro exI [of _ s2] exI [of _ c2]) (auto intro: suffix_order.order_trans)
next
  case (Alt a b)
  show ?case
  proof (cases "rmatch a s c k")
    case None
    with Alt.prems have "rmatch b s c k = Some r" by simp
    from Alt.IH(2) [OF this] show ?thesis .
  next
    case (Some r')
    with Alt.prems have "rmatch a s c k = Some r" by simp
    from Alt.IH(1) [OF this] show ?thesis .
  qed
qed

lemma matchHere_sound:
  "matchHere re s = Some (rest, c) \<Longrightarrow> suffix rest s \<and> (\<forall>n. sublist (c n) s)"
proof -
  assume "matchHere re s = Some (rest, c)"
  then have "rmatch re s (\<lambda>_. []) (\<lambda>rest c. Some (rest, c)) = Some (rest, c)"
    by (simp add: matchHere_def)
  from rmatch_sound [OF this] obtain s' c' where
    "suffix s' s" "Some (s', c') = Some (rest, c)" "\<forall>n. c' n = [] \<or> sublist (c' n) s" by blast
  then show ?thesis by auto (metis sublist_Nil_left)
qed



lemma set_tl_subset: "x \<in> set (tl xs) \<Longrightarrow> x \<in> set xs"
  by (cases xs) auto

lemma FindAll_sublist:
  "m \<in> set (FindAllStringSubmatch re s) \<Longrightarrow> sublist (moduleNameOf m) s"
proof (induction re s rule: FindAllStringSubmatch.induct)
  case (1 re)
  then show ?case by simp
next
  case (2 re x xs)
  show ?case
  proof (cases "matchHere re (x # xs)")
    case None
    with 2 have "sublist (moduleNameOf m) xs" by simp
    then show ?thesis by (simp add: sublist_Cons_right)
  next
    case (Some p)
    obtain rest c where p: "p = (rest, c)" by (cases p)
    from matchHere_sound Some p have snd: "suffix rest (x # xs)" "\<And>n. sublist (c n) (x # xs)"
      by blast+
    let ?next = "if length rest \<le> length xs then rest else xs"
    have nxt: "suffix ?next (x # xs)"
      using snd(1) by (simp add: suffix_ConsI)
    from 2(3) Some p have
      "m = [take (length (x # xs) - length rest) (x # xs), c 1, c 2]
        \<or> m \<in> set (FindAllStringSubmatch re ?next)"
      by simp
    then show ?thesis
    proof
      assume "m = [take (length (x # xs) - length rest) (x # xs), c 1, c 2]"
      then show ?thesis using snd(2) by (simp add: moduleNameOf_def Let_def)
    next
      assume "m \<in> set (FindAllStringSubmatch re ?next)"
      with 2(2) Some p have "sublist (moduleNameOf m) ?next" by simp
      with nxt show ?thesis
        using suffix_imp_sublist sublist_order.order_trans by blast
    qed
  qed
qed

lemma scanLine_fold:
  "scanLineAndExtractPkgs currLine t = fold markModuleAsFound (extractedNames currLine) t"
  by (simp add: scanLineAndExtractPkgs_def extractedNames_def handleRequireCase_def
      handleImportCase_def requireLoop_fold fold_map comp_def)

lemma extractedNames_Contains:
  assumes "n \<in> set (extractedNames currLine)"
  shows "Contains currLine n"
proof -
  have "sublist n currLine"
  proof (cases "n \<in> set (requireNames 0 (Split currLine requirePat))")
    case True
    then obtain v where "v \<in> set (Split currLine requirePat)" "n = TrimSuffix v requireEnd"
      by (auto simp: requireNames_def dest: set_tl_subset)
    moreover have "requirePat \<noteq> []" by (simp add: requirePat_def)
    ultimately have "sublist v currLine" "sublist n v"
      by (simp_all add: Split_sublist TrimSuffix_sublist)
    then show ?thesis using sublist_order.order_trans by blast
  next
    case False
    with assms have "n \<in> moduleNameOf ` set (FindAllStringSubmatch importRe currLine)"
      by (auto simp: extractedNames_def split: if_splits)
    then show ?thesis by (auto simp: FindAll_sublist)
  qed
  then show ?thesis by (simp add: Contains_iff_sublist)
qed

lemma scanLines_fold:
  "fold scanLineAndExtractPkgs lines t =
     fold markModuleAsFound (concat (map extractedNames lines)) t"
  by (induction lines arbitrary: t) (simp_all add: scanLine_fold)



section \<open>Properties of the matcher, the scanner and the pruner\<close>

lemma Star_skip:
  assumes "\<And>x xs c. cmatch cl x \<Longrightarrow> k (x # xs) c = None"
  shows "rmatch (Star cl) s c k = k (dropWhile (cmatch cl) s) c"
proof (induction s)
  case Nil
  show ?case by simp
next
  case (Cons x xs)
  show ?case
  proof (cases "cmatch cl x")
    case False
    then show ?thesis by simp
  next
    case True
    show ?thesis
    proof (cases "k (dropWhile (cmatch cl) xs) c")
      case None
      with True Cons assms [OF True] show ?thesis by simp
    next
      case (Some r)
      with True Cons show ?thesis by simp
    qed
  qed
qed

lemma quote_not_space: "isQuote q \<Longrightarrow> \<not> isSpace q"
  by (auto simp: isQuote_def isSpace_def quotes_def whitespace_def DQ_def SQ_def LF_def CR_def)

lemma Plus_then_quote:
  "rmatch (Plus (NoneOf quotes)) s3 c (\<lambda>s' c'. rmatch (Cls (OneOf quotes)) s' (f s' c') k) =
     (case dropWhile (\<lambda>c. \<not> isQuote c) s3 of
        [] \<Rightarrow> None
      | q2 # rest \<Rightarrow>
          if takeWhile (\<lambda>c. \<not> isQuote c) s3 \<noteq> [] then k rest (f (q2 # rest) c) else None)"
proof (cases s3)
  case Nil
  then show ?thesis by simp
next
  case (Cons y s4)
  have nq: "cmatch (NoneOf quotes) = (\<lambda>c. \<not> isQuote c)"
    by (auto simp: isQuote_def)
  have fails: "cmatch (NoneOf quotes) x \<Longrightarrow>
      rmatch (Cls (OneOf quotes)) (x # xs) (f (x # xs) c') k = None" for x xs c'
    by simp
  have skip: "rmatch (Star (NoneOf quotes)) s4 c
                (\<lambda>s' c'. rmatch (Cls (OneOf quotes)) s' (f s' c') k)
              = rmatch (Cls (OneOf quotes)) (dropWhile (\<lambda>c. \<not> isQuote c) s4)
                  (f (dropWhile (\<lambda>c. \<not> isQuote c) s4) c) k"
    unfolding nq [symmetric]
    by (rule Star_skip) (rule fails)
  show ?thesis
  proof (cases "isQuote y")
    case True
    with Cons show ?thesis by (simp add: isQuote_def)
  next
    case False
    have dq: "dropWhile (\<lambda>c. \<not> isQuote c) s4 = q2 # rest \<Longrightarrow> isQuote q2" for q2 rest
      by (metis dropWhile_eq_Cons_conv)
    have "rmatch (Plus (NoneOf quotes)) s3 c (\<lambda>s' c'. rmatch (Cls (OneOf quotes)) s' (f s' c') k)
        = rmatch (Cls (OneOf quotes)) (dropWhile (\<lambda>c. \<not> isQuote c) s4)
                  (f (dropWhile (\<lambda>c. \<not> isQuote c) s4) c) k"
      using False Cons skip by (simp add: isQuote_def)
    also have "\<dots> = (case dropWhile (\<lambda>c. \<not> isQuote c) s4 of
        [] \<Rightarrow> None | q2 # rest \<Rightarrow> k rest (f (q2 # rest) c))"
    proof (cases "dropWhile (\<lambda>c. \<not> isQuote c) s4")
      case Nil
      then show ?thesis by (simp del: dropWhile_eq_Nil_conv)
    next
      case (Cons q2 rest)
      from dq [OF this] have "cmatch (OneOf quotes) q2" by (simp add: isQuote_def)
      with Cons show ?thesis by simp
    qed
    finally have lhs: "rmatch (Plus (NoneOf quotes)) s3 c
          (\<lambda>s' c'. rmatch (Cls (OneOf quotes)) s' (f s' c') k)
        = (case dropWhile (\<lambda>c. \<not> isQuote c) s4 of
             [] \<Rightarrow> None | q2 # rest \<Rightarrow> k rest (f (q2 # rest) c))" .
    have rhs: "(case dropWhile (\<lambda>c. \<not> isQuote c) s3 of
        [] \<Rightarrow> None
      | q2 # rest \<Rightarrow>
          if takeWhile (\<lambda>c. \<not> isQuote c) s3 \<noteq> [] then k rest (f (q2 # rest) c) else None)
        = (case dropWhile (\<lambda>c. \<not> isQuote c) s4 of
             [] \<Rightarrow> None | q2 # rest \<Rightarrow> k rest (f (q2 # rest) c))"
    proof -
      have tw: "takeWhile (\<lambda>c. \<not> isQuote c) s3 \<noteq> []"
        unfolding Cons using False by simp
      have dw: "dropWhile (\<lambda>c. \<not> isQuote c) s3 = dropWhile (\<lambda>c. \<not> isQuote c) s4"
        unfolding Cons using False by simp
      show ?thesis unfolding dw using tw by (simp cong: list.case_cong)
    qed
    show ?thesis unfolding lhs rhs ..

  qed
qed

lemma take_dropWhile_length:
  "take (length xs - length (dropWhile P xs)) xs = takeWhile P xs"
proof -
  have "length (takeWhile P xs) + length (dropWhile P xs) = length xs"
    by (metis length_append takeWhile_dropWhile_id)
  then have "length xs - length (dropWhile P xs) = length (takeWhile P xs)" by simp
  then show ?thesis by (metis takeWhile_eq_take)
qed

lemma name_then_quote:
  "rmatch (Cat (Group n (Plus (NoneOf quotes))) (Cls (OneOf quotes))) s3 c k =
     (case dropWhile (\<lambda>c. \<not> isQuote c) s3 of
        [] \<Rightarrow> None
      | q2 # rest \<Rightarrow>
          if takeWhile (\<lambda>c. \<not> isQuote c) s3 \<noteq> []
          then k rest (c(n := takeWhile (\<lambda>c. \<not> isQuote c) s3)) else None)"
proof -
  have "rmatch (Cat (Group n (Plus (NoneOf quotes))) (Cls (OneOf quotes))) s3 c k =
      rmatch (Plus (NoneOf quotes)) s3 c
        (\<lambda>s' c'. rmatch (Cls (OneOf quotes)) s' (c'(n := take (length s3 - length s') s3)) k)"
    by simp
  also have "\<dots> = (case dropWhile (\<lambda>c. \<not> isQuote c) s3 of
        [] \<Rightarrow> None
      | q2 # rest \<Rightarrow>
          if takeWhile (\<lambda>c. \<not> isQuote c) s3 \<noteq> []
          then k rest (c(n := take (length s3 - length (q2 # rest)) s3)) else None)"
    by (rule Plus_then_quote)
  also have "\<dots> = (case dropWhile (\<lambda>c. \<not> isQuote c) s3 of
        [] \<Rightarrow> None
      | q2 # rest \<Rightarrow>
          if takeWhile (\<lambda>c. \<not> isQuote c) s3 \<noteq> []
          then k rest (c(n := takeWhile (\<lambda>c. \<not> isQuote c) s3)) else None)"
  proof (cases "dropWhile (\<lambda>c. \<not> isQuote c) s3")
    case Nil
    then show ?thesis by (simp del: dropWhile_eq_Nil_conv)
  next
    case (Cons q2 rest)
    have "take (length s3 - length (q2 # rest)) s3 = takeWhile (\<lambda>c. \<not> isQuote c) s3"
      using take_dropWhile_length [of s3 "\<lambda>c. \<not> isQuote c"] Cons by simp
    with Cons show ?thesis by simp
  qed
  finally show ?thesis .
qed

lemma importClause_match:
  "rmatch (importClause kw n) s c k =
     (case clauseAt kw s of None \<Rightarrow> None | Some (name, rest) \<Rightarrow> k rest (c(n := name)))"
proof (cases "prefix kw s")
  case False
  then show ?thesis by (simp add: importClause_def clauseAt_def)
next
  case True
  let ?R3 = "Cat (Group n (Plus (NoneOf quotes))) (Cls (OneOf quotes))"
  let ?R2 = "Cat (Cls (OneOf quotes)) ?R3"
  let ?s1 = "drop (length kw) s"
  have r2: "rmatch ?R2 s2 c' k =
      (case s2 of [] \<Rightarrow> None | q # s3 \<Rightarrow> if isQuote q then rmatch ?R3 s3 c' k else None)"
    for s2 c'
    by (cases s2) (simp_all add: isQuote_def)
  have fails: "cmatch whitespace x \<Longrightarrow> rmatch ?R2 (x # xs) c' k = None" for x xs c'
    using quote_not_space [of x] unfolding r2 by (auto simp: isSpace_def)
  have "rmatch (importClause kw n) s c k
      = rmatch (Star whitespace) ?s1 c (\<lambda>s' c'. rmatch ?R2 s' c' k)"
    using True by (simp add: importClause_def)
  also have "\<dots> = rmatch ?R2 (dropWhile (cmatch whitespace) ?s1) c k"
    by (rule Star_skip) (rule fails)
  also have "\<dots> = (case clauseAt kw s of None \<Rightarrow> None
                     | Some (name, rest) \<Rightarrow> k rest (c(n := name)))"
    unfolding r2 name_then_quote clauseAt_def isSpace_def [abs_def]
    using True by (simp split: list.splits del: dropWhile_eq_Nil_conv)
  finally show ?thesis .
qed

lemma clauseAt_sound:
  assumes "clauseAt kw s = Some (name, rest)"
  shows "\<exists>m. s = m @ rest \<and> isClause kw name m"
proof -
  let ?s1 = "drop (length kw) s"
  from assms have pre: "prefix kw s" by (simp add: clauseAt_def split: if_splits)
  then have s: "s = kw @ ?s1" by (metis append_eq_conv_conj prefixE)
  from assms pre obtain q s3 where
    d1: "dropWhile isSpace ?s1 = q # s3" and q: "isQuote q"
    by (auto simp: clauseAt_def split: list.splits if_splits simp del: dropWhile_eq_Nil_conv)
  from assms pre d1 q obtain q2 where
    d2: "dropWhile (\<lambda>c. \<not> isQuote c) s3 = q2 # rest"
    and nm: "name = takeWhile (\<lambda>c. \<not> isQuote c) s3" "name \<noteq> []"
    by (auto simp: clauseAt_def split: list.splits if_splits simp del: dropWhile_eq_Nil_conv)
  from d2 have q2: "isQuote q2" by (metis dropWhile_eq_Cons_conv)
  let ?ws = "takeWhile isSpace ?s1"
  have "?s1 = ?ws @ q # s3" using d1 by (metis takeWhile_dropWhile_id)
  moreover have "s3 = name @ q2 # rest" using d2 nm(1) by (metis takeWhile_dropWhile_id)
  ultimately have "s = (kw @ ?ws @ [q] @ name @ [q2]) @ rest" using s by simp
  moreover have "isClause kw name (kw @ ?ws @ [q] @ name @ [q2])"
    unfolding isClause_def using q q2 nm
    by (intro exI [of _ ?ws] exI [of _ q] exI [of _ q2]) (auto dest: set_takeWhileD)
  ultimately show ?thesis by blast
qed

lemma clauseAt_complete:
  assumes "isClause kw name m"
  shows "clauseAt kw (m @ rest) = Some (name, rest)"
proof -
  from assms obtain ws q1 q2 where
    m: "m = kw @ ws @ [q1] @ name @ [q2]" and ws: "\<forall>c \<in> set ws. isSpace c"
    and q: "isQuote q1" "isQuote q2" and nm: "name \<noteq> []" "\<forall>c \<in> set name. \<not> isQuote c"
    by (auto simp: isClause_def)
  have d1: "dropWhile isSpace (ws @ q1 # name @ q2 # rest) = q1 # name @ q2 # rest"
    using ws quote_not_space [OF q(1)] by (simp add: dropWhile_append3)
  have d2: "dropWhile (\<lambda>c. \<not> isQuote c) (name @ q2 # rest) = q2 # rest"
    using nm(2) q(2) by (simp add: dropWhile_append3)
  have t2: "takeWhile (\<lambda>c. \<not> isQuote c) (name @ q2 # rest) = name"
    using nm(2) q(2) by (simp add: takeWhile_append2)
  show ?thesis
    unfolding clauseAt_def m using d1 d2 t2 q nm(1) by simp
qed

lemma clause_nonempty: "isClause kw name m \<Longrightarrow> m \<noteq> []"
  by (auto simp: isClause_def)

lemma matchHere_importRe:
  "matchHere importRe s =
     (case clauseAt ''from'' s of
        Some (name, rest) \<Rightarrow> Some (rest, (\<lambda>_. [])(1 := name))
      | None \<Rightarrow>
          (case clauseAt ''import'' s of
             Some (name, rest) \<Rightarrow> Some (rest, (\<lambda>_. [])(2 := name))
           | None \<Rightarrow> None))"
  unfolding matchHere_def importRe_def rmatch.simps(7) importClause_match
  by (simp split: option.splits)

lemma no_match_no_clause:
  assumes "matchHere importRe s = None"
  shows "\<not> startsClause s"
proof
  assume "startsClause s"
  then obtain kw name m rest where
    "kw = ''from'' \<or> kw = ''import''" "s = m @ rest" "isClause kw name m"
    by (auto simp: startsClause_def)
  then have "clauseAt ''from'' s = Some (name, rest) \<or> clauseAt ''import'' s = Some (name, rest)"
    using clauseAt_complete by blast
  with assms show False
    by (auto simp: matchHere_importRe split: option.splits)
qed

lemma allMatches_Cons:
  assumes "\<not> startsClause (x # xs)" and "allMatches xs ms"
  shows "allMatches (x # xs) ms"
  using assms(2)
proof (cases rule: allMatches.cases)
  case no_match
  show ?thesis
  proof (rule allMatches.no_match [of "x # xs", folded no_match(1)])
    fix t assume "suffix t (x # xs)"
    then have "t = x # xs \<or> suffix t xs" by (auto simp: suffix_Cons)
    with assms(1) no_match(2) show "\<not> startsClause t" by blast
  qed
next
  case (match_from name m pre rest ms')
  have "allMatches ((x # pre) @ m @ rest) ([m, name, []] # ms')"
  proof (rule allMatches.match_from [OF match_from(3) _ match_from(5)])
    fix t assume t: "suffix t ((x # pre) @ m @ rest)" "length (m @ rest) < length t"
    then have "t = x # xs \<or> suffix t (pre @ m @ rest)"
      using match_from(1) by (auto simp: suffix_Cons)
    with assms(1) match_from(4) t(2) show "\<not> startsClause t" by blast
  qed
  with match_from(1,2) show ?thesis by simp
next
  case (match_import name m pre rest ms')
  have "allMatches ((x # pre) @ m @ rest) ([m, [], name] # ms')"
  proof (rule allMatches.match_import [OF match_import(3) _ match_import(5)])
    fix t assume t: "suffix t ((x # pre) @ m @ rest)" "length (m @ rest) < length t"
    then have "t = x # xs \<or> suffix t (pre @ m @ rest)"
      using match_import(1) by (auto simp: suffix_Cons)
    with assms(1) match_import(4) t(2) show "\<not> startsClause t" by blast
  qed
  with match_import(1,2) show ?thesis by simp
qed

lemma FindAll_allMatches: "allMatches s (FindAllStringSubmatch importRe s)"
proof (induction importRe s rule: FindAllStringSubmatch.induct)
  case 1
  have "\<not> startsClause []"
    by (auto simp: startsClause_def dest: clause_nonempty)
  then show ?case by (auto intro: allMatches.no_match)
next
  case (2 x xs)
  show ?case
  proof (cases "matchHere importRe (x # xs)")
    case None
    with 2(1) have "allMatches xs (FindAllStringSubmatch importRe xs)" by simp
    with no_match_no_clause [OF None] have
      "allMatches (x # xs) (FindAllStringSubmatch importRe xs)"
      by (rule allMatches_Cons)
    with None show ?thesis by simp
  next
    case (Some p)
    obtain rest c where p: "p = (rest, c)" by (cases p)
    have nothing_earlier: "\<not> startsClause t"
      if "suffix t ([] @ m @ rest)" "length (m @ rest) < length t" for t m
      using that suffix_length_le by fastforce
    show ?thesis
    proof (cases "clauseAt ''from'' (x # xs)")
      case fr: (Some q)
      obtain name r where q: "q = (name, r)" by (cases q)
      from Some p fr q have cs: "r = rest" "c 1 = name" "c 2 = []"
        by (auto simp: matchHere_importRe)
      from clauseAt_sound fr q cs(1) obtain m where
        m: "x # xs = m @ rest" "isClause ''from'' name m" by blast
      from m clause_nonempty have len: "length rest \<le> length xs"
        by (metis append_eq_Cons_conv length_append length_Cons le_add2 list.size(4) Suc_eq_plus1)
      have whole: "take (length (x # xs) - length rest) (x # xs) = m"
        using m(1) by simp
      from 2(2) [OF Some p [symmetric]] len have
        "allMatches rest (FindAllStringSubmatch importRe rest)" by simp
      with m(2) nothing_earlier have
        "allMatches ([] @ m @ rest) ([m, name, []] # FindAllStringSubmatch importRe rest)"
        by (intro allMatches.match_from)
      moreover have "FindAllStringSubmatch importRe (x # xs)
          = [m, name, []] # FindAllStringSubmatch importRe rest"
        using Some p len whole cs by simp
      ultimately show ?thesis by (simp add: m(1))
    next
      case None
      with Some p obtain name where
        im: "clauseAt ''import'' (x # xs) = Some (name, rest)" and cs: "c 1 = []" "c 2 = name"
        by (auto simp: matchHere_importRe split: option.splits)
      from clauseAt_sound [OF im] obtain m where
        m: "x # xs = m @ rest" "isClause ''import'' name m" by blast
      from m clause_nonempty have len: "length rest \<le> length xs"
        by (metis append_eq_Cons_conv length_append length_Cons le_add2 list.size(4) Suc_eq_plus1)
      have whole: "take (length (x # xs) - length rest) (x # xs) = m"
        using m(1) by simp
      from 2(2) [OF Some p [symmetric]] len have
        "allMatches rest (FindAllStringSubmatch importRe rest)" by simp
      with m(2) nothing_earlier have
        "allMatches ([] @ m @ rest) ([m, [], name] # FindAllStringSubmatch importRe rest)"
        by (intro allMatches.match_import)
      moreover have "FindAllStringSubmatch importRe (x # xs)
          = [m, [], name] # FindAllStringSubmatch importRe rest"
        using Some p len whole cs by simp
      ultimately show ?thesis by (simp add: m(1))
    qed
  qed
qed

lemma twoImports_matches:
  "map moduleNameOf (FindAllStringSubmatch importRe twoImports) = [''bar'', ''baz'']"
  by (simp add: twoImports_def matchHere_def importRe_def importClause_def whitespace_def
      quotes_def DQ_def SQ_def LF_def CR_def moduleNameOf_def)







lemma matchHere_trailingComma:
  "matchHere trailingCommaRe s =
     (case s of
        [] \<Rightarrow> None
      | x # r \<Rightarrow>
          if x = CHR '','' then
            (case dropWhile isSpace r of
               [] \<Rightarrow> None
             | y # rest \<Rightarrow> if y = CHR ''}'' then Some (rest, \<lambda>_. []) else None)
          else None)"
proof (cases s)
  case Nil
  then show ?thesis by (simp add: matchHere_def trailingCommaRe_def)
next
  case (Cons x r)
  let ?k = "\<lambda>rest c. Some (rest, c :: caps)"
  let ?k1 = "\<lambda>s' c'. rmatch (Lit ''}'') s' c' ?k"
  have fails: "cmatch whitespace y \<Longrightarrow> ?k1 (y # ys) c' = None" for y ys c'
    by (auto simp: whitespace_def LF_def CR_def)
  have star: "rmatch (Star whitespace) r (\<lambda>_. []) ?k1 = ?k1 (dropWhile (cmatch whitespace) r) (\<lambda>_. [])"
    by (rule Star_skip) (rule fails)
  have iss: "isSpace = cmatch whitespace" by (simp add: isSpace_def [abs_def])
  show ?thesis
  proof (cases "x = CHR '',''")
    case False
    have "matchHere trailingCommaRe s
        = rmatch (Lit '','') s (\<lambda>_. []) (\<lambda>s' c'. rmatch (Star whitespace) s' c' ?k1)"
      by (simp only: matchHere_def trailingCommaRe_def rmatch.simps(6))
    also have "\<dots> = None"
      using False Cons by (subst rmatch.simps(1)) (simp del: rmatch.simps)
    finally show ?thesis using False Cons by simp
  next
    case True
    have "matchHere trailingCommaRe s
        = rmatch (Lit '','') s (\<lambda>_. []) (\<lambda>s' c'. rmatch (Star whitespace) s' c' ?k1)"
      by (simp only: matchHere_def trailingCommaRe_def rmatch.simps(6))
    also have "\<dots> = rmatch (Star whitespace) r (\<lambda>_. []) ?k1"
      using True Cons by (subst rmatch.simps(1)) (simp del: rmatch.simps)
    also have "\<dots> = ?k1 (dropWhile isSpace r) (\<lambda>_. [])"
      unfolding star iss ..
    also have "\<dots> = (case dropWhile isSpace r of
               [] \<Rightarrow> None
             | y # rest \<Rightarrow> if y = CHR ''}'' then Some (rest, \<lambda>_. []) else None)"
      by (cases "dropWhile isSpace r") (simp_all del: dropWhile_eq_Nil_conv)
    finally show ?thesis using True Cons by simp
  qed
qed







section \<open>Properties of the walk\<close>









text \<open>The definitions that evaluate a run on a concrete state.\<close>

lemmas eval_defs = projectWorld_def quoted_def DQ_def LF_def CR_def SQ_def
  scanDir_def filesToExclude_def Join_def Walk_def main_def afterWalk_def readPackages_def
  osOpen_def osCreate_def osReadFile_def osWriteFile_def osRename_def wgWait_def
  readFileAndExtractPackages_def ScanLines_def dropCR_def MaxScanTokenSize_def
  scanLineAndExtractPkgs_def Contains_def handleRequireCase_def handleImportCase_def
  Split.simps requirePat_def requireEnd_def HasPrefix_def TrimSuffix_def suffix_to_prefix
  markModuleAsFound_def createDepsToRemoveList_def deleteDepsFromPackageJSON_def
  createNewPackageJsonFile_def removeTrailingCommas_def matchHere_trailingComma isSpace_def
  whitespace_def print_def populate_def scriptLoop_def Let_def

text \<open>The matches of a line are determined by \<open>allMatches\<close>.\<close>

lemma clause_keyword: "isClause kw name m \<Longrightarrow> prefix kw (m @ rest)"
  by (auto simp: isClause_def)

lemma clause_unique:
  assumes "isClause kw name m" and "isClause kw' name' m'"
    and "kw \<in> {''from'', ''import''}" and "kw' \<in> {''from'', ''import''}"
    and "m @ rest = m' @ rest'"
  shows "kw = kw' \<and> name = name' \<and> m = m' \<and> rest = rest'"
proof -
  have p: "prefix kw (m @ rest)" "prefix kw' (m @ rest)"
    using clause_keyword [OF assms(1), of rest] clause_keyword [OF assms(2), of rest'] assms(5)
    by simp_all
  have kw: "kw = kw'"
  proof (rule ccontr)
    assume "kw \<noteq> kw'"
    with assms(3,4) have "(kw = ''from'' \<and> kw' = ''import'') \<or> (kw = ''import'' \<and> kw' = ''from'')"
      by auto
    with p show False by (cases "m @ rest") auto
  qed
  have "clauseAt kw (m @ rest) = Some (name, rest)" "clauseAt kw (m' @ rest') = Some (name', rest')"
    using clauseAt_complete assms(1,2) kw by simp_all
  with assms(5) have "name = name'" "rest = rest'" by simp_all
  with assms(5) kw show ?thesis by simp
qed

lemma first_clause_unique:
  assumes eq: "pre @ m @ rest = pre' @ m' @ rest'"
    and c: "isClause kw name m" "kw \<in> {''from'', ''import''}"
    and c': "isClause kw' name' m'" "kw' \<in> {''from'', ''import''}"
    and e: "\<And>t. suffix t (pre @ m @ rest) \<Longrightarrow> length (m @ rest) < length t \<Longrightarrow> \<not> startsClause t"
    and e': "\<And>t. suffix t (pre' @ m' @ rest') \<Longrightarrow> length (m' @ rest') < length t \<Longrightarrow> \<not> startsClause t"
  shows "kw = kw' \<and> name = name' \<and> m = m' \<and> rest = rest'"
proof -
  have s: "startsClause (m @ rest)" "startsClause (m' @ rest')"
    using c c' unfolding startsClause_def by blast+
  have "suffix (m' @ rest') (pre @ m @ rest)" using eq by (simp add: suffix_def)
  with e s(2) have 1: "\<not> length (m @ rest) < length (m' @ rest')" by blast
  have "suffix (m @ rest) (pre' @ m' @ rest')" using eq by (metis suffixI)
  with e' s(1) have 2: "\<not> length (m' @ rest') < length (m @ rest)" by blast
  from 1 2 have "length (m @ rest) = length (m' @ rest')" by simp
  with eq have "m @ rest = m' @ rest'"
    by (metis append_eq_append_conv length_append add_right_cancel)
  with clause_unique [OF c(1) c'(1) c(2) c'(2)] show ?thesis by blast
qed

lemma allMatches_unique: "allMatches s ms \<Longrightarrow> allMatches s ms' \<Longrightarrow> ms = ms'"
proof (induction arbitrary: ms' rule: allMatches.induct)
  case (no_match s)
  from no_match.prems show ?case
  proof (cases rule: allMatches.cases)
    case no_match
    then show ?thesis by simp
  next
    case (match_from name m pre rest ms)
    then have "startsClause (m @ rest)" "suffix (m @ rest) s"
      unfolding startsClause_def by (blast, simp add: suffix_def)
    with no_match.hyps show ?thesis by blast
  next
    case (match_import name m pre rest ms)
    then have "startsClause (m @ rest)" "suffix (m @ rest) s"
      unfolding startsClause_def by (blast, simp add: suffix_def)
    with no_match.hyps show ?thesis by blast
  qed
next
  case (match_from name m pre rest ms)
  from match_from.prems show ?case
  proof (cases rule: allMatches.cases)
    case no_match
    have "startsClause (m @ rest)" "suffix (m @ rest) (pre @ m @ rest)"
      using match_from.hyps(1) unfolding startsClause_def by (blast, simp add: suffix_def)
    with no_match show ?thesis by blast
  next
    case other: (match_from name' m' pre' rest' ms'')
    from first_clause_unique [OF other(1) match_from.hyps(1) _ other(3) _ match_from.hyps(2) other(4)]
    have "name = name' \<and> m = m' \<and> rest = rest'" by simp
    with other match_from.IH show ?thesis by simp
  next
    case other: (match_import name' m' pre' rest' ms'')
    from first_clause_unique [OF other(1) match_from.hyps(1) _ other(3) _ match_from.hyps(2) other(4)]
    have "''from'' = ''import''" by simp
    then show ?thesis by simp
  qed
next
  case (match_import name m pre rest ms)
  from match_import.prems show ?case
  proof (cases rule: allMatches.cases)
    case no_match
    have "startsClause (m @ rest)" "suffix (m @ rest) (pre @ m @ rest)"
      using match_import.hyps(1) unfolding startsClause_def by (blast, simp add: suffix_def)
    with no_match show ?thesis by blast
  next
    case other: (match_from name' m' pre' rest' ms'')
    from first_clause_unique [OF other(1) match_import.hyps(1) _ other(3) _ match_import.hyps(2) other(4)]
    have "''import'' = ''from''" by simp
    then show ?thesis by simp
  next
    case other: (match_import name' m' pre' rest' ms'')
    from first_clause_unique [OF other(1) match_import.hyps(1) _ other(3) _ match_import.hyps(2) other(4)]
    have "name = name' \<and> m = m' \<and> rest = rest'" by simp
    with other match_import.IH show ?thesis by simp
  qed
qed

lemma allMatches_iff: "allMatches s ms \<longleftrightarrow> ms = FindAllStringSubmatch importRe s"
  using allMatches_unique FindAll_allMatches by blast

text \<open>The test for \<^verbatim>\<open>require\<close> before \<^verbatim>\<open>handleRequireCase\<close> changes nothing.\<close>

lemma no_require_no_pattern:
  assumes "\<not> Contains currLine ''require''"
  shows "Index currLine requirePat = None"
proof (rule ccontr)
  assume "Index currLine requirePat \<noteq> None"
  then have "sublist requirePat currLine"
    using Contains_iff_sublist [of currLine requirePat] by (simp add: Contains_def)
  moreover have "prefix ''require'' requirePat" by (simp add: requirePat_def)
  ultimately have "sublist ''require'' currLine"
    using prefix_imp_sublist sublist_order.order_trans by blast
  with assms show False by (simp add: Contains_iff_sublist)
qed

lemma require_gate_immaterial:
  "(if Contains currLine ''require'' then handleRequireCase currLine t else t)
     = handleRequireCase currLine t"
proof (cases "Contains currLine ''require''")
  case True
  then show ?thesis by simp
next
  case False
  from no_require_no_pattern [OF this] have "Split currLine requirePat = [currLine]"
    by (simp add: Split.simps requirePat_def)
  with False show ?thesis by (simp add: handleRequireCase_def)
qed

section \<open>The claims\<close>

text \<open>
  C9.  The keys of the usage table are fixed once it is initialised.  For every sequence
  of calls of \<^verbatim>\<open>markModuleAsFound\<close> the list of keys stays as it was and the flag of a key
  is true afterwards if the key was among the names, and as before otherwise; so a flag
  only ever goes from false to true.  A call with a name that is not a key changes
  nothing (no error, no new key); a call with a key sets its flag.  Scanning lines, which
  changes the table through these calls only, leaves the keys as they were.
\<close>

theorem usage_table_keys_fixed:
  "map fst (fold markModuleAsFound names t) = map fst t
   \<and> (\<forall>k. map_of (fold markModuleAsFound names t) k =
          (if k \<in> set names then map_option (\<lambda>_. True) (map_of t k) else map_of t k))
   \<and> (\<forall>n. map_of t n = None \<longrightarrow> markModuleAsFound n t = t)
   \<and> (\<forall>n b. map_of t n = Some b \<longrightarrow> map_of (markModuleAsFound n t) n = Some True)
   \<and> map fst (fold scanLineAndExtractPkgs lines t) = map fst t"
  by (simp add: fold_mark_keys fold_mark_lookup mark_lookup scanLines_fold)
     (simp add: markModuleAsFound_def)

theorem usage_table_keys_fixed_witness:
  "fold markModuleAsFound [''lodash'', ''fs'', ''lodash'']
      [(''lodash'', False), (''chalk'', False)] = [(''lodash'', True), (''chalk'', False)]
   \<and> map_of [(''lodash'', False), (''chalk'', False)] ''fs'' = None
   \<and> markModuleAsFound ''fs'' [(''lodash'', False), (''chalk'', False)]
        = [(''lodash'', False), (''chalk'', False)]
   \<and> map_of (markModuleAsFound ''lodash'' [(''lodash'', False), (''chalk'', False)]) ''lodash''
        = Some True"
  using usage_table_keys_fixed
    [of "[''lodash'', ''fs'', ''lodash'']" "[(''lodash'', False), (''chalk'', False)]" "[]"]
  by (simp add: markModuleAsFound_def)

text \<open>
  C7.  Require-style extraction splits the line on \<^verbatim>\<open>require("\<close>.  Of the fragments after
  the first, one that starts with a dot is passed over without touching the table; any
  other loses a trailing \<^verbatim>\<open>");\<close> and goes to \<^verbatim>\<open>markModuleAsFound\<close>.  This holds for every
  line: the test for \<^verbatim>\<open>require\<close> in \<^verbatim>\<open>scanLineAndExtractPkgs\<close> changes nothing, a line
  without the word has no fragment after the first.  Scanning the line
  \<^verbatim>\<open>const x = require("./localfile");\<close> leaves every table as it is, and scanning
  \<^verbatim>\<open>const _ = require("lodash");\<close> marks lodash.
\<close>

theorem handleRequireCase_fragments:
  "handleRequireCase currLine t =
     fold markModuleAsFound
       (map (\<lambda>v. TrimSuffix v requireEnd)
          (filter (\<lambda>v. \<not> HasPrefix v ''.'') (tl (Split currLine requirePat)))) t
   \<and> (if Contains currLine ''require'' then handleRequireCase currLine t else t)
       = handleRequireCase currLine t
   \<and> scanLineAndExtractPkgs (''const x = require('' @ [DQ] @ ''./localfile'' @ [DQ] @ '');'') t = t
   \<and> scanLineAndExtractPkgs (''const _ = require('' @ [DQ] @ ''lodash'' @ [DQ] @ '');'') t
        = markModuleAsFound ''lodash'' t"
  by (simp add: require_gate_immaterial scanLineAndExtractPkgs_def)
     (simp add: handleRequireCase_def requireLoop_fold requireNames_def Contains_def
       Split.simps requirePat_def requireEnd_def DQ_def HasPrefix_def TrimSuffix_def
       suffix_to_prefix)

theorem handleRequireCase_fragments_witness:
  "handleRequireCase (''const _ = require('' @ [DQ] @ ''lodash'' @ [DQ] @ '');'')
      [(''lodash'', False), (''chalk'', False)] = [(''lodash'', True), (''chalk'', False)]
   \<and> scanLineAndExtractPkgs (''const x = require('' @ [DQ] @ ''./localfile'' @ [DQ] @ '');'')
      [(''./localfile'', False)] = [(''./localfile'', False)]"
  using handleRequireCase_fragments [of "[]" "[(''lodash'', False), (''chalk'', False)]"]
    handleRequireCase_fragments [of "[]" "[(''./localfile'', False)]"]
  by (simp add: markModuleAsFound_def handleRequireCase_def requireLoop_fold requireNames_def
       Split.simps requirePat_def requireEnd_def DQ_def HasPrefix_def TrimSuffix_def
       suffix_to_prefix)

text \<open>
  C1.  For a declared dependency \<open>k\<close> (a key of \<^verbatim>\<open>dependencies\<close> or \<^verbatim>\<open>devDependencies\<close>) and
  every sequence of marks after \<^verbatim>\<open>readPackages\<close>: \<open>k\<close> is in the removal list exactly when
  its flag is false; when \<open>k\<close> is a substring of some script command it is never in the
  list, whatever the scan marks; when \<open>k\<close> is in no script and is never marked it is in the
  list; and when \<open>k\<close> is in no script and is a substring of no scanned line, scanning those
  lines leaves it in the list.
\<close>

theorem removal_set_iff_flag_false:
  assumes "k \<in> fst ` set (Dependencies pkg) \<union> fst ` set (DevDependencies pkg)"
  shows "(k \<in> set (createDepsToRemoveList (fold markModuleAsFound names (populate pkg [])))
            \<longleftrightarrow> map_of (fold markModuleAsFound names (populate pkg [])) k = Some False)
       \<and> ((\<exists>script \<in> snd ` set (Scripts pkg). Contains script k) \<longrightarrow>
            k \<notin> set (createDepsToRemoveList (fold markModuleAsFound names (populate pkg []))))
       \<and> ((\<forall>script \<in> snd ` set (Scripts pkg). \<not> Contains script k) \<and> k \<notin> set names \<longrightarrow>
            k \<in> set (createDepsToRemoveList (fold markModuleAsFound names (populate pkg []))))
       \<and> ((\<forall>script \<in> snd ` set (Scripts pkg). \<not> Contains script k)
            \<and> (\<forall>line \<in> set lines. \<not> Contains line k) \<longrightarrow>
            k \<in> set (createDepsToRemoveList (fold scanLineAndExtractPkgs lines (populate pkg []))))"
proof -
  have d: "distinct (map fst (fold markModuleAsFound ns (populate pkg [])))" for ns
    by (simp add: fold_mark_keys populate_distinct)
  have rm: "set (createDepsToRemoveList (fold markModuleAsFound ns (populate pkg [])))
             = {k. map_of (fold markModuleAsFound ns (populate pkg [])) k = Some False}" for ns
    by (rule createDepsToRemoveList_set [OF d])
  have flag: "map_of (fold markModuleAsFound ns (populate pkg [])) k
      = Some (k \<in> set ns \<or> (\<exists>script \<in> snd ` set (Scripts pkg). Contains script k))" for ns
    using assms by (auto simp: fold_mark_lookup populate_lookup)
  have one: "k \<in> set (createDepsToRemoveList (fold markModuleAsFound names (populate pkg [])))
            \<longleftrightarrow> map_of (fold markModuleAsFound names (populate pkg [])) k = Some False"
    by (simp add: rm)
  have two: "(\<exists>script \<in> snd ` set (Scripts pkg). Contains script k) \<longrightarrow>
            k \<notin> set (createDepsToRemoveList (fold markModuleAsFound names (populate pkg [])))"
    by (simp add: rm flag)
  have three: "(\<forall>script \<in> snd ` set (Scripts pkg). \<not> Contains script k) \<and> k \<notin> set ns \<longrightarrow>
            k \<in> set (createDepsToRemoveList (fold markModuleAsFound ns (populate pkg [])))" for ns
    by (simp add: rm flag)
  have four: "(\<forall>script \<in> snd ` set (Scripts pkg). \<not> Contains script k)
            \<and> (\<forall>line \<in> set lines. \<not> Contains line k) \<longrightarrow>
            k \<in> set (createDepsToRemoveList (fold scanLineAndExtractPkgs lines (populate pkg [])))"
  proof
    assume h: "(\<forall>script \<in> snd ` set (Scripts pkg). \<not> Contains script k)
            \<and> (\<forall>line \<in> set lines. \<not> Contains line k)"
    have "k \<notin> set (concat (map extractedNames lines))"
    proof
      assume "k \<in> set (concat (map extractedNames lines))"
      then obtain line where "line \<in> set lines" "k \<in> set (extractedNames line)" by auto
      with h show False using extractedNames_Contains by blast
    qed
    with h three [of "concat (map extractedNames lines)"]
    show "k \<in> set (createDepsToRemoveList (fold scanLineAndExtractPkgs lines (populate pkg [])))"
      by (simp add: scanLines_fold)
  qed
  from one two three [of names] four show ?thesis by blast
qed

theorem removal_set_iff_flag_false_witness:
  "''jest'' \<in> fst ` set (Dependencies examplePkg) \<union> fst ` set (DevDependencies examplePkg)
   \<and> ''jest'' \<in> set (createDepsToRemoveList
         (fold scanLineAndExtractPkgs [''const _ = require('' @ [DQ] @ ''lodash'' @ [DQ] @ '');'']
            (populate examplePkg [])))
   \<and> ''chalk'' \<notin> set (createDepsToRemoveList (fold markModuleAsFound [] (populate examplePkg [])))"
proof -
  have j: "''jest'' \<in> fst ` set (Dependencies examplePkg) \<union> fst ` set (DevDependencies examplePkg)"
    by (simp add: examplePkg_def)
  have c: "''chalk'' \<in> fst ` set (Dependencies examplePkg) \<union> fst ` set (DevDependencies examplePkg)"
    by (simp add: examplePkg_def)
  have s: "\<forall>script \<in> snd ` set (Scripts examplePkg). \<not> Contains script ''jest''"
    by (simp add: examplePkg_def Contains_def)
  have l: "\<forall>line \<in> set [''const _ = require('' @ [DQ] @ ''lodash'' @ [DQ] @ '');''].
             \<not> Contains line ''jest''"
    by (simp add: Contains_def DQ_def)
  have sc: "\<exists>script \<in> snd ` set (Scripts examplePkg). Contains script ''chalk''"
    by (simp add: examplePkg_def Contains_def)
  from removal_set_iff_flag_false [OF j, of "[]" "[''const _ = require('' @ [DQ] @ ''lodash'' @ [DQ] @ '');'']"]
       removal_set_iff_flag_false [OF c, of "[]" "[]"] j s l sc
  show ?thesis by blast
qed

text \<open>
  C8 as stated fails at a line that holds a clause but not the word \<^verbatim>\<open>import\<close>, such as
  the last line of an import statement that runs over several lines: the pattern matches
  \<^verbatim>\<open>from "lodash"\<close> in it, but \<^verbatim>\<open>scanLineAndExtractPkgs\<close> does not call
  \<^verbatim>\<open>handleImportCase\<close> and nothing is marked.
\<close>

theorem import_gate_counterexample:
  "map moduleNameOf (FindAllStringSubmatch importRe lastImportLine) = [''lodash'']
   \<and> scanLineAndExtractPkgs lastImportLine [(''lodash'', False)] = [(''lodash'', False)]"
  by (simp add: lastImportLine_def quoted_def matchHere_def importRe_def importClause_def
      whitespace_def quotes_def DQ_def SQ_def LF_def CR_def moduleNameOf_def
      scanLineAndExtractPkgs_def Contains_def)

text \<open>
  C8, amended.  Import-style extraction marks the names of all the matches of the pattern
  in the line: the list that \<^verbatim>\<open>FindAllStringSubmatch\<close> returns is the one list of matches
  taken leftmost first and without overlap (no clause starts before a match, and the
  search goes on behind it), where a match is \<^verbatim>\<open>from\<close> or \<^verbatim>\<open>import\<close>, white space, a
  quote of either kind, a name and a quote of either kind.  Each match carries its name
  in one of the two captures and the other capture is empty; the name marked is the one
  that is not empty.  A line with two clauses yields two names.  The extraction is
  applied to the lines that contain \<^verbatim>\<open>import\<close>, after the require-style one; a line
  without \<^verbatim>\<open>import\<close> gets the require-style extraction only.
\<close>

theorem handleImportCase_all_matches:
  "(allMatches currLine ms \<longleftrightarrow> ms = FindAllStringSubmatch importRe currLine)
   \<and> handleImportCase currLine t =
       fold markModuleAsFound (map moduleNameOf (FindAllStringSubmatch importRe currLine)) t
   \<and> (\<forall>m name. moduleNameOf [m, name, []] = name \<and> moduleNameOf [m, [], name] = name)
   \<and> map moduleNameOf (FindAllStringSubmatch importRe twoImports) = [''bar'', ''baz'']
   \<and> scanLineAndExtractPkgs currLine t =
       (if Contains currLine ''import''
        then handleImportCase currLine (handleRequireCase currLine t)
        else handleRequireCase currLine t)"
  by (simp add: allMatches_iff handleImportCase_def fold_map comp_def twoImports_matches
      scanLineAndExtractPkgs_def require_gate_immaterial)
     (simp add: moduleNameOf_def)

theorem handleImportCase_all_matches_witness:
  "scanLineAndExtractPkgs twoImports [(''bar'', False), (''baz'', False), (''qux'', False)]
     = [(''bar'', True), (''baz'', True), (''qux'', False)]
   \<and> allMatches twoImports (FindAllStringSubmatch importRe twoImports)"
  using handleImportCase_all_matches
    [of twoImports "FindAllStringSubmatch importRe twoImports"
        "[(''bar'', False), (''baz'', False), (''qux'', False)]"]
  by (simp add: markModuleAsFound_def twoImports_def Contains_def handleRequireCase_def
      Split.simps requirePat_def DQ_def SQ_def)






text \<open>
  C3 at a tree with an excluded name below the root.  The directory \<^verbatim>\<open>node_modules\<close> at
  the root is skipped with everything beneath it, and its sibling \<^verbatim>\<open>src\<close> is walked; but
  \<^verbatim>\<open>src/node_modules\<close> is not skipped, because \<^verbatim>\<open>scanDir\<close> looks up the whole path and not
  the name: the file beneath it gets an extraction task.
\<close>

theorem nested_excluded_directory_is_scanned:
  "Walk ''.'' scanDir (projectWorld nestedTree [] []) =
     (None, (projectWorld nestedTree [] [])
              \<lparr>tasks := [''src/app.js'', ''src/node_modules/lib/x.js'']\<rparr>)"
  by (simp add: nestedTree_def eval_defs)

text \<open>
  C2 at a manifest that is not JSON.  The file opens, the error of \<^verbatim>\<open>json.Unmarshal\<close> is
  dropped, and the run goes on with an empty table: the source file is scanned, the
  manifest is rewritten and all the closing lines are printed.  In the same project
  without its files the run does end at \<^verbatim>\<open>os.Open\<close>, before anything is scanned.
\<close>

theorem parse_error_is_dropped:
  "(case main syntaxErrorUnmarshal brokenWorld of
      Inl _ \<Rightarrow> False
    | Inr w \<Rightarrow>
        scanned w = [''index.js'']
        \<and> stdout w = [FinishedWalking, ProgramComplete, PackageJsonChanged, ReferToOldPackageJson]
        \<and> files w ''package.json'' = Some (brokenManifest @ [LF])
        \<and> files w ''oldpackage.json'' = Some brokenManifest)
   \<and> main syntaxErrorUnmarshal (brokenWorld\<lparr>files := Map.empty\<rparr>)
       = Inl (PathError ''open'' ''package.json'', brokenWorld\<lparr>files := Map.empty\<rparr>)"
  by (simp add: brokenWorld_def brokenManifest_def syntaxErrorUnmarshal_def requireLodash_def
      eval_defs)

text \<open>
  C4 at a failing rename.  When the manifest cannot be renamed to the backup name the run
  does not stop: the second rename puts the pruned text in place of the manifest, and no
  backup exists.  When the second rename fails the run does not stop either, and leaves no
  manifest at all.  A failure to create the temporary file, in contrast, ends the run.
\<close>

theorem failed_rename_is_dropped:
  "(case deleteDepsFromPackageJSON [''chalk''] renameRefusedWorld of
      Inl _ \<Rightarrow> False
    | Inr w \<Rightarrow>
        files w ''package.json'' =
          Some (''{'' @ [LF] @ ''  '' @ quoted ''dependencies'' @ '': {'' @ [LF]
                @ ''    '' @ quoted ''lodash'' @ '': '' @ quoted ''^4'' @ ''}'' @ [LF]
                @ ''}'' @ [LF])
        \<and> files w ''oldpackage.json'' = None
        \<and> files w ''newPackage.json'' = None)
   \<and> (case deleteDepsFromPackageJSON [''chalk'']
               (renameRefusedWorld\<lparr>refused := [OpRename ''newPackage.json'' ''package.json'']\<rparr>) of
         Inl _ \<Rightarrow> False
       | Inr w \<Rightarrow>
           files w ''package.json'' = None
           \<and> files w ''oldpackage.json'' = Some twoDepsManifest)
   \<and> deleteDepsFromPackageJSON [''chalk'']
         (renameRefusedWorld\<lparr>refused := [OpCreate ''newPackage.json'']\<rparr>)
       = Inl (PathError ''open'' ''newPackage.json'',
              renameRefusedWorld\<lparr>refused := [OpCreate ''newPackage.json'']\<rparr>)"
  by (simp add: renameRefusedWorld_def twoDepsManifest_def eval_defs)




end
